theory Spec2Isabelle
  imports Complex_Main
begin

section \<open>Errors\<close>

text \<open>
  Every \<^verbatim>\<open>raise\<close> of the sources is a value.  The messages of the
  \<^verbatim>\<open>ValueError\<close>s keep the numbers that the source formats into them.
  \<open>MnemonicError\<close> stands for whatever the wordlist codec of the
  \<^verbatim>\<open>mnemonic\<close> package raises.
\<close>

datatype value_error =
    MoreSharesNeeded int int
  | SeedLengthNotAllowed int
  | ShareStrengthNotAllowed int
  | ShareStrengthTooLow int int
  | StrengthNotAllowed int
  | NeedTwoShares
  | SharesDifferentLengths "(int \<times> nat) list"
  | SeedStrengthNotAllowed int
  | FailedToRecover
  | SampleLargerThanPopulation
  | NegativeLength

datatype error =
    ValueError value_error
  | AssertionError
  | OverflowError
  | KeyError int
  | IndexError
  | ZeroDivisionError
  | MnemonicError

fun map_err :: "('a \<Rightarrow> error + 'b) \<Rightarrow> 'a list \<Rightarrow> error + 'b list" where
  "map_err f [] = Inr []"
| "map_err f (x # xs) =
     (case f x of
        Inl e \<Rightarrow> Inl e
      | Inr y \<Rightarrow> (case map_err f xs of Inl e \<Rightarrow> Inl e | Inr ys \<Rightarrow> Inr (y # ys)))"

section \<open>Constants of utils.py\<close>

definition PRIMES :: "int \<Rightarrow> int option" where
  "PRIMES = map_of
     [(128, 2 ^ 128 - 159),
      (160, 2 ^ 160 - 47),
      (192, 2 ^ 192 - 237),
      (224, 2 ^ 224 - 63),
      (256, 2 ^ 256 - 189)]"

definition STRENGTH_ALLOWED :: "int list" where
  "STRENGTH_ALLOWED = [128, 160, 192, 224, 256]"

definition LENGTH_ALLOWED :: "int list" where
  "LENGTH_ALLOWED = [12, 15, 18, 21, 24]"

section \<open>Strings and bytes\<close>

text \<open>\<^verbatim>\<open>s.split(" ")\<close>: cut at every single space; the empty string gives one empty word.\<close>

fun split_spaces :: "string \<Rightarrow> string list" where
  "split_spaces [] = [[]]"
| "split_spaces (c # cs) =
     (if c = CHR '' '' then [] # split_spaces cs
      else (case split_spaces cs of [] \<Rightarrow> [[c]] | w # ws \<Rightarrow> (c # w) # ws))"

text \<open>A byte is a natural number below 256; \<^verbatim>\<open>bytes\<close> is a list of them.\<close>

type_synonym bytes = "nat list"

fun be_bytes :: "nat \<Rightarrow> nat \<Rightarrow> bytes" where
  "be_bytes n 0 = []"
| "be_bytes n (Suc len) = be_bytes (n div 256) len @ [n mod 256]"

text \<open>\<^verbatim>\<open>int.to_bytes(number, length, byteorder="big")\<close>: a negative number and a
  number that needs more than \<open>length\<close> bytes raise \<^verbatim>\<open>OverflowError\<close>.\<close>

definition int_to_bytes :: "int \<Rightarrow> nat \<Rightarrow> error + bytes" where
  "int_to_bytes number len =
     (if number < 0 \<or> 256 ^ len \<le> number then Inl OverflowError
      else Inr (be_bytes (nat number) len))"

text \<open>\<^verbatim>\<open>int.from_bytes(entropy, "big")\<close>\<close>

definition int_from_bytes :: "bytes \<Rightarrow> int" where
  "int_from_bytes bs = foldl (\<lambda>acc b. acc * 256 + int b) 0 bs"

section \<open>The wordlist codec\<close>

text \<open>
  \<^verbatim>\<open>Mnemonic("english")\<close> comes from the \<^verbatim>\<open>mnemonic\<close> package, which is not part
  of the repository.  The functions below take it as a parameter: its two methods, each
  returning a value or the error it raised.
\<close>

record mnemo =
  to_mnemonic :: "bytes \<Rightarrow> error + string"
  to_entropy :: "string \<Rightarrow> error + bytes"

definition int_to_seed :: "mnemo \<Rightarrow> int \<Rightarrow> int \<Rightarrow> error + string" where
  "int_to_seed mnemo number strength =
     (if strength \<notin> set STRENGTH_ALLOWED then Inl (ValueError (StrengthNotAllowed strength))
      else (case int_to_bytes number (nat (strength div 8)) of
              Inl e \<Rightarrow> Inl e
            | Inr entropy_as_bytes \<Rightarrow> to_mnemonic mnemo entropy_as_bytes))"

definition seed_to_int :: "mnemo \<Rightarrow> string \<Rightarrow> int \<Rightarrow> error + int" where
  "seed_to_int mnemo seed strength =
     (if strength \<notin> set STRENGTH_ALLOWED then Inl (ValueError (StrengthNotAllowed strength))
      else (case to_entropy mnemo seed of
              Inl e \<Rightarrow> Inl e
            | Inr entropy \<Rightarrow> Inr (int_from_bytes entropy)))"

section \<open>Generation\<close>

text \<open>The loop of \<^verbatim>\<open>_eval_at\<close> over \<^verbatim>\<open>reversed(poly)\<close>; \<^verbatim>\<open>accum %= prime\<close>
  raises for a zero modulus.\<close>

fun eval_at_loop :: "int list \<Rightarrow> int \<Rightarrow> int \<Rightarrow> int \<Rightarrow> error + int" where
  "eval_at_loop [] x prime accum = Inr accum"
| "eval_at_loop (coeff # rest) x prime accum =
     (if prime = 0 then Inl ZeroDivisionError
      else eval_at_loop rest x prime ((accum * x + coeff) mod prime))"

definition eval_at :: "int list \<Rightarrow> int \<Rightarrow> int \<Rightarrow> error + int" where
  "eval_at poly x prime = eval_at_loop (rev poly) x prime 0"


text \<open>
  The generator reads the random source once per coefficient; \<open>rnd i\<close> is the result of
  its \<open>i\<close>-th call (counting from 0).
\<close>

definition make_poly :: "(nat \<Rightarrow> int) \<Rightarrow> int \<Rightarrow> int \<Rightarrow> int list" where
  "make_poly rnd secret minimum = secret # map rnd [0..<nat (minimum - 1)]"

definition make_points :: "int list \<Rightarrow> int \<Rightarrow> int \<Rightarrow> error + (int \<times> int) list" where
  "make_points poly n_shares prime =
     map_err (\<lambda>i. case eval_at poly i prime of Inl e \<Rightarrow> Inl e | Inr v \<Rightarrow> Inr (i, v))
       [1..n_shares]"

definition make_random_shares ::
  "mnemo \<Rightarrow> (nat \<Rightarrow> int) \<Rightarrow> string \<Rightarrow> int \<Rightarrow> int \<Rightarrow> int \<Rightarrow> error + (int \<times> string) list" where
  "make_random_shares mnemo rnd seed minimum n_shares share_strength =
     (if minimum > n_shares then Inl (ValueError (MoreSharesNeeded minimum n_shares))
      else
        let seed_length = int (length (split_spaces seed)) in
        if seed_length \<notin> set LENGTH_ALLOWED
        then Inl (ValueError (SeedLengthNotAllowed seed_length))
        else
          let seed_strength = seed_length div 3 * 32 in
          if share_strength \<notin> set STRENGTH_ALLOWED
          then Inl (ValueError (ShareStrengthNotAllowed share_strength))
          else if share_strength < seed_strength
          then Inl (ValueError (ShareStrengthTooLow share_strength seed_strength))
          else
            (case PRIMES share_strength of
               None \<Rightarrow> Inl (KeyError share_strength)
             | Some prime \<Rightarrow>
                 (case seed_to_int mnemo seed 256 of
                    Inl e \<Rightarrow> Inl e
                  | Inr secret \<Rightarrow>
                      (case make_points (make_poly rnd secret minimum) n_shares prime of
                         Inl e \<Rightarrow> Inl e
                       | Inr points \<Rightarrow>
                           map_err
                             (\<lambda>(i, point).
                                case int_to_seed mnemo point share_strength of
                                  Inl e \<Rightarrow> Inl e
                                | Inr phrase \<Rightarrow> Inr (i, phrase))
                             points))))"

section \<open>Field arithmetic and interpolation\<close>

function extended_gcd_loop ::
  "int \<Rightarrow> int \<Rightarrow> int \<Rightarrow> int \<Rightarrow> int \<Rightarrow> int \<Rightarrow> int \<times> int" where
  "extended_gcd_loop a b x last_x y last_y =
     (if b \<noteq> 0
      then let quot = a div b
           in extended_gcd_loop b (a mod b) (last_x - quot * x) x (last_y - quot * y) y
      else (last_x, last_y))"
  by pat_completeness auto
termination
  by (relation "measure (\<lambda>(a, b, x, last_x, y, last_y). nat \<bar>b\<bar>)")
     (auto simp: abs_mod_less)

definition extended_gcd :: "int \<Rightarrow> int \<Rightarrow> int \<times> int" where
  "extended_gcd a b = extended_gcd_loop a b 0 1 1 0"

text \<open>\<^verbatim>\<open>_divmod\<close>: the numerator times the first B\'ezout coefficient, as it is.\<close>

definition divmod_p :: "int \<Rightarrow> int \<Rightarrow> int \<Rightarrow> int" where
  "divmod_p num den p = (case extended_gcd den p of (inv_den, _) \<Rightarrow> num * inv_den)"

text \<open>\<^verbatim>\<open>PI\<close>, the product of its inputs, accumulated from 1.\<close>

definition PI :: "int list \<Rightarrow> int" where
  "PI vals = foldl (\<lambda>accum v. accum * v) 1 vals"

text \<open>\<^verbatim>\<open>others = list(x_s); cur = others.pop(i)\<close>\<close>

definition others :: "'a list \<Rightarrow> nat \<Rightarrow> 'a list" where
  "others x_s i = take i x_s @ drop (Suc i) x_s"

definition lagrange_nums :: "int \<Rightarrow> int list \<Rightarrow> int list" where
  "lagrange_nums x x_s =
     map (\<lambda>i. PI (map (\<lambda>o'. x - o') (others x_s i))) [0..<length x_s]"

definition lagrange_dens :: "int list \<Rightarrow> int list" where
  "lagrange_dens x_s =
     map (\<lambda>i. PI (map (\<lambda>o'. x_s ! i - o') (others x_s i))) [0..<length x_s]"

definition lagrange_interpolate ::
  "int \<Rightarrow> int list \<Rightarrow> int list \<Rightarrow> int \<Rightarrow> error + int" where
  "lagrange_interpolate x x_s y_s p =
     (let k = length x_s in
      if k \<noteq> length (remdups x_s) then Inl AssertionError
      else
        let nums = lagrange_nums x x_s;
            dens = lagrange_dens x_s;
            den = PI dens
        in (case map_err
                   (\<lambda>i. if length y_s \<le> i then Inl IndexError
                        else if p = 0 then Inl ZeroDivisionError
                        else Inr (divmod_p (nums ! i * den * y_s ! i mod p) (dens ! i) p))
                   [0..<k] of
              Inl e \<Rightarrow> Inl e
            | Inr terms \<Rightarrow>
                let num = sum_list terms in
                if p = 0 then Inl ZeroDivisionError
                else Inr ((divmod_p num den p + p) mod p)))"

section \<open>Recovery\<close>

definition default_prime :: "(int \<times> string) list \<Rightarrow> error + int" where
  "default_prime shares =
     (let share_word_length = int (length (split_spaces (snd (shares ! 0))));
          share_strength = share_word_length div 3 * 32
      in case PRIMES share_strength of
           None \<Rightarrow> Inl (KeyError share_strength)
         | Some prime \<Rightarrow> Inr prime)"

text \<open>\<^verbatim>\<open>if not prime\<close> holds for \<^verbatim>\<open>None\<close> and for 0.\<close>

definition recover_seed ::
  "mnemo \<Rightarrow> (int \<times> string) list \<Rightarrow> int \<Rightarrow> int option \<Rightarrow> error + string" where
  "recover_seed mnemo shares seed_strength prime =
     (if length shares < 2 then Inl (ValueError NeedTwoShares)
      else
        let len_shares = map (\<lambda>(i, share). length (split_spaces share)) shares in
        if \<not> length (remdups len_shares) = 1
        then Inl (ValueError (SharesDifferentLengths
                    (map (\<lambda>(i, share). (i, length (split_spaces share))) shares)))
        else if seed_strength \<notin> set STRENGTH_ALLOWED
        then Inl (ValueError (SeedStrengthNotAllowed seed_strength))
        else
          (case (if prime = None \<or> prime = Some 0 then default_prime shares
                 else Inr (the prime)) of
             Inl e \<Rightarrow> Inl e
           | Inr prime' \<Rightarrow>
               (case map_err
                       (\<lambda>(i, seed).
                          case seed_to_int mnemo seed seed_strength of
                            Inl e \<Rightarrow> Inl e
                          | Inr v \<Rightarrow> Inr (i, v))
                       shares of
                  Inl e \<Rightarrow> Inl e
                | Inr points \<Rightarrow>
                    (case lagrange_interpolate 0 (map fst points) (map snd points) prime' of
                       Inl e \<Rightarrow> Inl e
                     | Inr entropy \<Rightarrow>
                         (case int_to_seed mnemo entropy seed_strength of
                            Inl OverflowError \<Rightarrow> Inl (ValueError FailedToRecover)
                          | Inl e \<Rightarrow> Inl e
                          | Inr seed \<Rightarrow> Inr seed)))))"

section \<open>Self-verification of make_shares.py\<close>


text \<open>
  \<^verbatim>\<open>itertools.permutations(iterable, r)\<close>: the tuples of \<open>r\<close> elements taken at
  different positions, in the lexicographic order of the positions.
\<close>

fun permutations :: "'a list \<Rightarrow> nat \<Rightarrow> 'a list list" where
  "permutations xs 0 = [[]]"
| "permutations xs (Suc r) =
     concat (map (\<lambda>i. map ((#) (xs ! i)) (permutations (others xs i) r)) [0..<length xs])"







section \<open>Notions used in the statements\<close>

text \<open>The value of the polynomial with coefficient list \<open>cs\<close> (constant term first).\<close>

fun poly_value :: "int list \<Rightarrow> int \<Rightarrow> int" where
  "poly_value [] x = 0"
| "poly_value (c # cs) x = c + x * poly_value cs x"

definition is_prime :: "int \<Rightarrow> bool" where
  "is_prime p \<longleftrightarrow> 1 < p \<and> (\<forall>d \<in> {2..<p}. \<not> d dvd p)"

definition entropy_ok :: "bytes \<Rightarrow> bool" where
  "entropy_ok bs \<longleftrightarrow> length bs \<in> {16, 20, 24, 28, 32} \<and> (\<forall>b \<in> set bs. b < 256)"

text \<open>
  What the statements ask of the codec: an entropy of an allowed length is encoded as a
  phrase of three words for every four bytes, and the phrase decodes to it.
\<close>

definition mnemo_ok :: "mnemo \<Rightarrow> bool" where
  "mnemo_ok mnemo \<longleftrightarrow>
     (\<forall>bs. entropy_ok bs \<longrightarrow>
        (\<exists>phrase. to_mnemonic mnemo bs = Inr phrase
           \<and> to_entropy mnemo phrase = Inr bs
           \<and> length (split_spaces phrase) = length bs div 4 * 3))"

text \<open>A valid seed phrase: the codec decodes it to an entropy whose encoding it is.\<close>

definition valid_seed :: "mnemo \<Rightarrow> string \<Rightarrow> bool" where
  "valid_seed mnemo seed \<longleftrightarrow>
     (case to_entropy mnemo seed of
        Inl e \<Rightarrow> False
      | Inr entropy \<Rightarrow> entropy_ok entropy \<and> to_mnemonic mnemo entropy = Inr seed)"

subsection \<open>Polynomial functions\<close>

text \<open>\<open>polyfn n f\<close>: the real function \<open>f\<close> is a polynomial of degree at most \<open>n\<close>.\<close>

definition polyfn :: "nat \<Rightarrow> (real \<Rightarrow> real) \<Rightarrow> bool" where
  "polyfn n f \<longleftrightarrow> (\<exists>c. \<forall>z. f z = (\<Sum>i\<le>n. c i * z ^ i))"

subsection \<open>A small codec\<close>

text \<open>
  A codec that writes a byte as two letters from \<open>a\<close> to \<open>p\<close> and four bytes as three
  words (one byte, one byte, two bytes).  It instantiates the parameter \<open>mnemo\<close>.
\<close>

definition enc_byte :: "nat \<Rightarrow> string" where
  "enc_byte b = [char_of (97 + b div 16), char_of (97 + b mod 16)]"

fun toy_words :: "bytes \<Rightarrow> string list" where
  "toy_words (b1 # b2 # b3 # b4 # rest) =
     enc_byte b1 # enc_byte b2 # (enc_byte b3 @ enc_byte b4) # toy_words rest"
| "toy_words bs = []"

fun join_spaces :: "string list \<Rightarrow> string" where
  "join_spaces [] = []"
| "join_spaces [w] = w"
| "join_spaces (w # ws) = w @ CHR '' '' # join_spaces ws"

fun toy_unpairs :: "string \<Rightarrow> bytes" where
  "toy_unpairs (c1 # c2 # rest) =
     ((of_char c1 - 97) * 16 + (of_char c2 - 97)) # toy_unpairs rest"
| "toy_unpairs cs = []"

definition toy_to_mnemonic :: "bytes \<Rightarrow> error + string" where
  "toy_to_mnemonic bs =
     (if entropy_ok bs then Inr (join_spaces (toy_words bs)) else Inl MnemonicError)"

definition toy_to_entropy :: "string \<Rightarrow> error + bytes" where
  "toy_to_entropy phrase =
     (let bs = toy_unpairs (filter (\<lambda>c. c \<noteq> CHR '' '') phrase)
      in if toy_to_mnemonic bs = Inr phrase then Inr bs else Inl MnemonicError)"

definition toy_mnemo :: mnemo where
  "toy_mnemo = \<lparr>to_mnemonic = toy_to_mnemonic, to_entropy = toy_to_entropy\<rparr>"

section \<open>Validation of the generator: C7\<close>

text \<open>
  C7.  \<^verbatim>\<open>make_random_shares\<close> fails with a \<^verbatim>\<open>ValueError\<close>, and returns no shares,
  whenever \<open>minimum > n_shares\<close>, or the number of words of the seed phrase is not one of
  12, 15, 18, 21, 24, or \<open>share_strength\<close> is not one of 128, 160, 192, 224, 256, or
  \<open>share_strength\<close> is below the strength of the seed (words div 3 * 32).  This holds
  for every codec and every random source.
\<close>

theorem make_random_shares_validation:
  assumes "minimum > n_shares
     \<or> int (length (split_spaces seed)) \<notin> set LENGTH_ALLOWED
     \<or> share_strength \<notin> set STRENGTH_ALLOWED
     \<or> share_strength < int (length (split_spaces seed)) div 3 * 32"
  shows "\<exists>v. make_random_shares mnemo rnd seed minimum n_shares share_strength
           = Inl (ValueError v)"
  using assms unfolding make_random_shares_def Let_def by auto

text \<open>The instance of the specification: \<open>minimum = 5\<close> with \<open>n_shares = 3\<close>.\<close>

theorem make_random_shares_validation_witness:
  "(5::int) > 3 \<and>
   make_random_shares toy_mnemo (\<lambda>i. 5) ''aa ab acad ae af agah ai aj akal am an aoap'' 5 3 128
     = Inl (ValueError (MoreSharesNeeded 5 3))"
proof -
  have h: "(5::int) > 3" by simp
  obtain v where v: "make_random_shares toy_mnemo (\<lambda>i. 5)
      ''aa ab acad ae af agah ai aj akal am an aoap'' 5 3 128 = Inl (ValueError v)"
    using make_random_shares_validation
      [of 3 5 "''aa ab acad ae af agah ai aj akal am an aoap''" 128 toy_mnemo "\<lambda>i. 5"] h
    by blast
  then show ?thesis by (simp add: make_random_shares_def)
qed

section \<open>Shares of different lengths: C8\<close>

lemma remdups_two_values:
  assumes "a \<in> set xs" "b \<in> set xs" "a \<noteq> b"
  shows "length (remdups xs) \<noteq> 1"
proof
  assume "length (remdups xs) = 1"
  then have "card (set xs) = 1" by (simp add: length_remdups_card_conv)
  then obtain c where "set xs = {c}" by (metis card_1_singletonE)
  with assms show False by auto
qed

text \<open>
  C8.  Given at least two shares, two of which differ in their number of words,
  \<^verbatim>\<open>recover_seed\<close> fails with the \<^verbatim>\<open>ValueError\<close> "Shares have different lengths".
  The result does not depend on the codec, on \<open>seed_strength\<close> or on \<open>prime\<close>: the
  check comes before the strength is validated, before any phrase is decoded and before
  the interpolation.
\<close>

theorem recover_seed_inconsistent_lengths:
  assumes "2 \<le> length shares"
    and "s \<in> set shares" and "t \<in> set shares"
    and "length (split_spaces (snd s)) \<noteq> length (split_spaces (snd t))"
  shows "recover_seed mnemo shares seed_strength prime
     = Inl (ValueError (SharesDifferentLengths
              (map (\<lambda>(i, share). (i, length (split_spaces share))) shares)))"
proof -
  let ?ls = "map (\<lambda>(i, share). length (split_spaces share)) shares"
  have "length (split_spaces (snd s)) \<in> set ?ls" "length (split_spaces (snd t)) \<in> set ?ls"
    using assms(2,3) by (force simp: case_prod_unfold)+
  then have "length (remdups ?ls) \<noteq> 1"
    using assms(4) by (rule remdups_two_values)
  then show ?thesis
    using assms(1) unfolding recover_seed_def Let_def by simp
qed

text \<open>A phrase of 12 words mixed with a phrase of 24 words.\<close>

theorem recover_seed_inconsistent_lengths_witness:
  "recover_seed toy_mnemo
     [(1, ''aa ab acad ae af agah ai aj akal am an aoap''),
      (2, ''aa ab acad ae af agah ai aj akal am an aoap ba bb bcbd be bf bgbh bi bj bkbl bm bn bobp'')]
     128 None
   = Inl (ValueError (SharesDifferentLengths [(1, 12), (2, 24)]))"
  using recover_seed_inconsistent_lengths [of
     "[(1, ''aa ab acad ae af agah ai aj akal am an aoap''),
      (2, ''aa ab acad ae af agah ai aj akal am an aoap ba bb bcbd be bf bgbh bi bj bkbl bm bn bobp'')]"
     "(1, ''aa ab acad ae af agah ai aj akal am an aoap'')"
     "(2, ''aa ab acad ae af agah ai aj akal am an aoap ba bb bcbd be bf bgbh bi bj bkbl bm bn bobp'')"
     toy_mnemo 128 None]
  by simp

section \<open>Decoding does not depend on the strength: C10\<close>

text \<open>
  C10.  For every codec, every phrase and any two allowed strengths,
  \<^verbatim>\<open>seed_to_int\<close> returns the same result (the same integer or the same error of the
  codec): the strength is validated and not used.  So decoding the share phrases at
  \<open>seed_strength\<close>, as \<^verbatim>\<open>recover_seed\<close> does, gives what decoding them at the strength of the
  shares gives.
\<close>

theorem seed_to_int_strength_independent:
  assumes "s1 \<in> set STRENGTH_ALLOWED" and "s2 \<in> set STRENGTH_ALLOWED"
  shows "seed_to_int mnemo phrase s1 = seed_to_int mnemo phrase s2"
  using assms by (simp add: seed_to_int_def)

theorem seed_to_int_strength_independent_witness:
  "128 \<in> set STRENGTH_ALLOWED \<and> 256 \<in> set STRENGTH_ALLOWED \<and>
   seed_to_int toy_mnemo ''aa ab acad ae af agah ai aj akal am an aoap'' 128
     = seed_to_int toy_mnemo ''aa ab acad ae af agah ai aj akal am an aoap'' 256"
  using seed_to_int_strength_independent
    [of 128 256 toy_mnemo "''aa ab acad ae af agah ai aj akal am an aoap''"]
  by (simp add: STRENGTH_ALLOWED_def)

section \<open>Field arithmetic: C5\<close>

text \<open>
  The loop of \<^verbatim>\<open>_extended_gcd\<close> keeps both pairs of coefficients B\'ezout coefficients
  of the current pair of remainders.  Called with a positive second argument, all the
  remainders after the first step are non-negative, and it ends on the gcd.
\<close>

lemma extended_gcd_loop_bezout:
  assumes "0 \<le> b" and "0 < a \<or> 0 < b"
    and "a0 * last_x + b0 * last_y = a" and "a0 * x + b0 * y = b"
  shows "(case extended_gcd_loop a b x last_x y last_y of
            (lx, ly) \<Rightarrow> a0 * lx + b0 * ly = gcd a b)"
  using assms
proof (induction a b x last_x y last_y rule: extended_gcd_loop.induct)
  case (1 a b x last_x y last_y)
  show ?case
  proof (cases "b = 0")
    case True
    with "1.prems" show ?thesis by simp
  next
    case False
    with "1.prems" have bpos: "0 < b" by simp
    have nb: "0 \<le> a mod b" using bpos by simp
    have e1: "a0 * x + b0 * y = b" by (rule "1.prems"(4))
    have e2: "a0 * (last_x - a div b * x) + b0 * (last_y - a div b * y) = a mod b"
    proof -
      have "a0 * (last_x - a div b * x) + b0 * (last_y - a div b * y)
          = (a0 * last_x + b0 * last_y) - a div b * (a0 * x + b0 * y)"
        by (simp add: algebra_simps)
      also have "\<dots> = a - a div b * b" using "1.prems"(3,4) by simp
      also have "\<dots> = a mod b" by (simp add: minus_div_mult_eq_mod)
      finally show ?thesis .
    qed
    have ih: "(case extended_gcd_loop b (a mod b) (last_x - a div b * x) x
                  (last_y - a div b * y) y of
                (lx, ly) \<Rightarrow> a0 * lx + b0 * ly = gcd b (a mod b))"
      using "1.IH" [OF False refl nb _ e1 e2] bpos by simp
    have g: "gcd b (a mod b) = gcd a b"
      by (metis gcd.commute gcd_red_int)
    show ?thesis
      using ih False g by (simp add: Let_def)
  qed
qed

lemma extended_gcd_inverse:
  assumes "0 < p" and "coprime den p"
  shows "den * fst (extended_gcd den p) mod p = 1 mod p"
proof -
  obtain lx ly where r: "extended_gcd den p = (lx, ly)" by (cases "extended_gcd den p")
  have "(case extended_gcd_loop den p 0 1 1 0 of (lx, ly) \<Rightarrow> den * lx + p * ly = gcd den p)"
    using assms(1) by (intro extended_gcd_loop_bezout) auto
  then have "den * lx + p * ly = 1"
    using r assms(2) by (simp add: extended_gcd_def)
  then have "den * lx = 1 - p * ly" by simp
  then have "den * lx mod p = (1 - p * ly) mod p" by simp
  also have "\<dots> = 1 mod p"
    by (metis mod_mult_self1 mult.commute uminus_add_conv_diff add.commute diff_conv_add_uminus mult_minus_right)
  finally show ?thesis using r by simp
qed

lemma divmod_p_cong:
  assumes "0 < p" and "coprime den p"
  shows "den * divmod_p num den p mod p = num mod p"
proof -
  have "divmod_p num den p = num * fst (extended_gcd den p)"
    by (simp add: divmod_p_def case_prod_unfold)
  then have "den * divmod_p num den p = num * (den * fst (extended_gcd den p))"
    by (simp only: mult.left_commute)
  then have "den * divmod_p num den p mod p = num * (den * fst (extended_gcd den p) mod p) mod p"
    by (simp only: mod_mult_right_eq)
  also have "\<dots> = num * (1 mod p) mod p"
    using extended_gcd_inverse [OF assms] by simp
  also have "\<dots> = num mod p" by (simp add: mod_mult_right_eq)
  finally show ?thesis .
qed

text \<open>
  C5, as the specification states it, fails: \<^verbatim>\<open>_divmod\<close> returns the product of the
  numerator and the B\'ezout coefficient without reducing it.  For the prime 5,
  \<^verbatim>\<open>_divmod(1, 2, 5)\<close> is \<open>-2\<close>, which is not in \<open>[0, 5)\<close>.
\<close>

theorem divmod_p_not_reduced_counterexample:
  "is_prime 5 \<and> gcd (2::int) 5 = 1 \<and> divmod_p 1 2 5 = - 2 \<and> \<not> (0 \<le> divmod_p 1 2 5)"
  by code_simp

text \<open>
  C5 amended.  For every modulus \<open>p > 0\<close> (so for every prime), every \<open>num\<close> and every
  \<open>den\<close> with \<open>gcd den p = 1\<close>: \<open>den * _divmod(num, den, p)\<close> is congruent to \<open>num\<close>
  modulo \<open>p\<close>, which is what the docstring of \<^verbatim>\<open>_divmod\<close> promises.  The result is the
  quotient in the field as a class modulo \<open>p\<close>; the reduction into \<open>[0, p)\<close> is left to
  the last line of \<^verbatim>\<open>_lagrange_interpolate\<close>.
\<close>

theorem divmod_p_congruence:
  assumes "0 < p" and "gcd den p = 1"
  shows "den * divmod_p num den p mod p = num mod p"
  using assms by (intro divmod_p_cong) (simp_all add: coprime_iff_gcd_eq_1)

theorem divmod_p_congruence_witness:
  "(0::int) < 5 \<and> gcd (2::int) 5 = 1 \<and> 2 * divmod_p 1 2 5 mod 5 = 1 mod 5"
proof -
  have c: "gcd (2::int) 5 = 1"
    by (simp add: gcd_non_0_int)
  show ?thesis using divmod_p_congruence [of 5 2 1] c by simp
qed

section \<open>Preconditions of the interpolator: C6\<close>

lemma foldl_mult_prod_list:
  "foldl (\<lambda>accum v. accum * v) c vals = c * prod_list (vals :: int list)"
  by (induction vals arbitrary: c) (simp_all add: mult.assoc)

lemma PI_prod_list: "PI vals = prod_list vals"
  by (simp add: PI_def foldl_mult_prod_list)

lemma not_distinct_remdups: "\<not> distinct xs \<Longrightarrow> length xs \<noteq> length (remdups xs)"
  by (metis distinct_remdups length_remdups_eq)

lemma distinct_length_remdups: "distinct xs \<Longrightarrow> length (remdups xs) = length xs"
  by (simp add: distinct_remdups_id)

lemma divmod_p_one: "0 < p \<Longrightarrow> divmod_p n 1 p mod p = n mod p"
  using divmod_p_cong [of p 1 n] by simp

lemma lagrange_interpolate_single:
  assumes "0 < p"
  shows "lagrange_interpolate x [x1] [y1] p = Inr (y1 mod p)"
proof -
  have "(divmod_p (divmod_p (y1 mod p) 1 p) 1 p + p) mod p = y1 mod p"
    using assms by (simp add: divmod_p_one)
  then show ?thesis
    using assms
    by (simp add: lagrange_interpolate_def lagrange_nums_def lagrange_dens_def others_def
        PI_prod_list)
qed

lemma lagrange_interpolate_empty:
  assumes "0 < p"
  shows "lagrange_interpolate x [] y_s p = Inr 0"
  using assms
  by (simp add: lagrange_interpolate_def lagrange_nums_def lagrange_dens_def PI_prod_list
      divmod_p_def case_prod_unfold)

text \<open>
  C6, as the specification states it, fails in its first half: \<^verbatim>\<open>_lagrange_interpolate\<close>
  has no check on the number of points.  With the single point \<open>(1, 43)\<close> and the modulus
  2089 it returns 43.
\<close>

theorem lagrange_interpolate_one_point_counterexample:
  "length [1::int] < 2 \<and> lagrange_interpolate 0 [1] [43] 2089 = Inr 43"
  by code_simp

text \<open>
  C6 amended.  \<^verbatim>\<open>_lagrange_interpolate\<close> fails with the \<^verbatim>\<open>AssertionError\<close> "points must
  be distinct" whenever two of the x-values are equal.  It does not fail on fewer than
  two points: for a modulus \<open>p > 0\<close>, one point \<open>(x1, y1)\<close> gives \<open>y1 mod p\<close> and no point
  gives 0.  The check of the number of points is in the caller: \<^verbatim>\<open>recover_seed\<close> fails with
  the \<^verbatim>\<open>ValueError\<close> "Need at least two shares" on fewer than two shares, before it does
  anything else.
\<close>

theorem lagrange_interpolate_preconditions:
  "(\<not> distinct x_s \<longrightarrow> lagrange_interpolate x x_s y_s p = Inl AssertionError)
   \<and> (0 < p \<longrightarrow> lagrange_interpolate x [x1] [y1] p = Inr (y1 mod p))
   \<and> (0 < p \<longrightarrow> lagrange_interpolate x [] [] p = Inr 0)
   \<and> (length shares < 2 \<longrightarrow>
        recover_seed mnemo shares seed_strength prime = Inl (ValueError NeedTwoShares))"
  by (simp add: lagrange_interpolate_single lagrange_interpolate_empty recover_seed_def)
     (simp add: lagrange_interpolate_def not_distinct_remdups)

theorem lagrange_interpolate_preconditions_witness:
  "\<not> distinct [1, 1 :: int] \<and> lagrange_interpolate 0 [1, 1] [43, 43] 2089 = Inl AssertionError
   \<and> (0::int) < 2089 \<and> lagrange_interpolate 0 [1] [43] 2089 = Inr 43
   \<and> lagrange_interpolate 0 [] [] 2089 = Inr 0
   \<and> recover_seed toy_mnemo [(1, ''aa ab acad ae af agah ai aj akal am an aoap'')] 128 None
       = Inl (ValueError NeedTwoShares)"
  using lagrange_interpolate_preconditions
    [of "[1, 1]" 0 "[43, 43]" 2089 1 43 "[(1, ''aa ab acad ae af agah ai aj akal am an aoap'')]"
      toy_mnemo 128 None]
  by simp

section \<open>Range of the random coefficients: C4\<close>




section \<open>Facts about the generator\<close>

text \<open>\<open>map_err\<close> returns a list exactly when every element is mapped to a value.\<close>

lemma map_err_Inr_D:
  "map_err f xs = Inr ys \<Longrightarrow> list_all2 (\<lambda>x y. f x = Inr y) xs ys"
  by (induction xs arbitrary: ys) (auto split: sum.splits)

lemma map_err_Inr_I:
  "list_all2 (\<lambda>x y. f x = Inr y) xs ys \<Longrightarrow> map_err f xs = Inr ys"
  by (induction rule: list_all2_induct) simp_all

lemma map_err_map: "map_err f (map g xs) = map_err (\<lambda>x. f (g x)) xs"
  by (induction xs) (simp_all split: sum.splits)

lemma map_err_all_Inr:
  assumes "\<And>x. x \<in> set xs \<Longrightarrow> f x = Inr (g x)"
  shows "map_err f xs = Inr (map g xs)"
  using assms by (intro map_err_Inr_I) (simp add: list_all2_conv_all_nth)

lemma poly_value_append:
  "poly_value (as @ bs) x = poly_value as x + x ^ length as * poly_value bs x"
  by (induction as) (simp_all add: algebra_simps)

lemma eval_at_loop_value:
  assumes "prime \<noteq> 0"
  shows "eval_at_loop cs x prime accum
     = Inr (if cs = [] then accum
            else (accum * x ^ length cs + poly_value (rev cs) x) mod prime)"
proof (induction cs arbitrary: accum)
  case Nil
  show ?case by simp
next
  case (Cons c cs)
  show ?case
  proof (cases "cs = []")
    case True
    then show ?thesis using assms by simp
  next
    case False
    have "((accum * x + c) mod prime * x ^ length cs + poly_value (rev cs) x) mod prime
        = ((accum * x + c) * x ^ length cs + poly_value (rev cs) x) mod prime"
      by (metis mod_add_left_eq mod_mult_left_eq)
    also have "\<dots> = (accum * x ^ length (c # cs) + poly_value (rev (c # cs)) x) mod prime"
      by (simp add: poly_value_append algebra_simps)
    finally show ?thesis
      using assms False by (simp add: Cons.IH)
  qed
qed

lemma eval_at_value:
  assumes "prime \<noteq> 0"
  shows "eval_at poly x prime = Inr (poly_value poly x mod prime)"
  using assms by (simp add: eval_at_def eval_at_loop_value)

lemma make_points_value:
  assumes "prime \<noteq> 0"
  shows "make_points poly n_shares prime
     = Inr (map (\<lambda>i. (i, poly_value poly i mod prime)) [1..n_shares])"
  unfolding make_points_def
  by (rule map_err_all_Inr) (simp add: eval_at_value assms)

lemma PRIMES_allowed:
  assumes "s \<in> set STRENGTH_ALLOWED"
  shows "\<exists>p. PRIMES s = Some p \<and> 0 < p \<and> p < 2 ^ nat s"
  using assms by (auto simp: STRENGTH_ALLOWED_def PRIMES_def)

lemma bytes_of_strength:
  assumes "s \<in> set STRENGTH_ALLOWED"
  shows "(256::int) ^ nat (s div 8) = 2 ^ nat s" and "nat (s div 8) \<in> {16, 20, 24, 28, 32}"
  using assms by (auto simp: STRENGTH_ALLOWED_def)

lemma length_be_bytes: "length (be_bytes n len) = len"
  by (induction len arbitrary: n) simp_all

lemma be_bytes_small: "b \<in> set (be_bytes n len) \<Longrightarrow> b < 256"
  by (induction len arbitrary: n) auto

lemma entropy_ok_be_bytes:
  assumes "s \<in> set STRENGTH_ALLOWED"
  shows "entropy_ok (be_bytes n (nat (s div 8)))"
  using bytes_of_strength(2) [OF assms]
  by (auto simp: entropy_ok_def length_be_bytes dest: be_bytes_small)

lemma int_to_bytes_fits:
  assumes "s \<in> set STRENGTH_ALLOWED" and "0 \<le> v" and "v < 2 ^ nat s"
  shows "int_to_bytes v (nat (s div 8)) = Inr (be_bytes (nat v) (nat (s div 8)))"
  using assms bytes_of_strength(1) [OF assms(1)] by (simp add: int_to_bytes_def)

lemma int_to_seed_fits:
  assumes "s \<in> set STRENGTH_ALLOWED" and "0 \<le> v" and "v < 2 ^ nat s"
  shows "int_to_seed mnemo v s = to_mnemonic mnemo (be_bytes (nat v) (nat (s div 8)))"
  using assms by (simp add: int_to_seed_def int_to_bytes_fits)

lemma make_random_shares_unfold:
  assumes "minimum \<le> n_shares"
    and "int (length (split_spaces seed)) \<in> set LENGTH_ALLOWED"
    and "share_strength \<in> set STRENGTH_ALLOWED"
    and "int (length (split_spaces seed)) div 3 * 32 \<le> share_strength"
    and "seed_to_int mnemo seed 256 = Inr secret"
    and "PRIMES share_strength = Some prime"
  shows "make_random_shares mnemo rnd seed minimum n_shares share_strength
     = map_err (\<lambda>i. case to_mnemonic mnemo
                      (be_bytes (nat (poly_value (make_poly rnd secret minimum) i mod prime))
                         (nat (share_strength div 8))) of
                    Inl e \<Rightarrow> Inl e | Inr phrase \<Rightarrow> Inr (i, phrase))
         [1..n_shares]"
proof -
  obtain p where p: "PRIMES share_strength = Some p" "0 < p" "p < 2 ^ nat share_strength"
    using PRIMES_allowed [OF assms(3)] by blast
  with assms(6) have pp: "prime = p" by simp
  let ?poly = "make_poly rnd secret minimum"
  have seed: "\<And>i. int_to_seed mnemo (poly_value ?poly i mod p) share_strength
      = to_mnemonic mnemo (be_bytes (nat (poly_value ?poly i mod p)) (nat (share_strength div 8)))"
    using p assms(3)
    by (intro int_to_seed_fits) (auto intro: less_trans [OF pos_mod_bound])
  show ?thesis
    using assms p pp
    by (simp add: make_random_shares_def Let_def make_points_value map_err_map seed)
qed

section \<open>The small codec meets the requirements on the codec\<close>

lemma of_char_letter: "k < 16 \<Longrightarrow> of_char (char_of (97 + k :: nat)) = (97 + k :: nat)"
  by (simp add: of_char_of)

lemma letter_not_space: "k < 16 \<Longrightarrow> char_of (97 + k :: nat) \<noteq> CHR '' ''"
proof
  assume k: "k < 16" and e: "char_of (97 + k :: nat) = CHR '' ''"
  have "(of_char (char_of (97 + k :: nat)) :: nat) = of_char CHR '' ''" using e by simp
  then show False using of_char_letter [OF k] by simp
qed

lemma enc_byte_no_space:
  assumes "b < 256"
  shows "CHR '' '' \<notin> set (enc_byte b)"
proof -
  have "b div 16 < 16" "b mod 16 < 16" using assms by auto
  then have "char_of (97 + b div 16) \<noteq> CHR '' ''" "char_of (97 + b mod 16) \<noteq> CHR '' ''"
    by (simp_all add: letter_not_space)
  then show ?thesis by (auto simp: enc_byte_def)
qed

lemma toy_unpairs_enc_byte:
  assumes "b < 256"
  shows "toy_unpairs (enc_byte b @ rest) = b # toy_unpairs rest"
proof -
  have "b div 16 < 16" "b mod 16 < 16" using assms by auto
  then show ?thesis
    by (simp add: enc_byte_def of_char_letter)
qed

lemma toy_unpairs_concat:
  "\<forall>b \<in> set bs. b < 256 \<Longrightarrow> toy_unpairs (concat (map enc_byte bs)) = bs"
  by (induction bs) (simp_all add: toy_unpairs_enc_byte)

lemma concat_toy_words:
  "length bs mod 4 = 0 \<Longrightarrow> concat (toy_words bs) = concat (map enc_byte bs)"
  by (induction bs rule: toy_words.induct) simp_all

lemma length_toy_words: "length (toy_words bs) = length bs div 4 * 3"
  by (induction bs rule: toy_words.induct) simp_all

lemma toy_words_no_space:
  "\<forall>b \<in> set bs. b < 256 \<Longrightarrow> w \<in> set (toy_words bs) \<Longrightarrow> CHR '' '' \<notin> set w"
  by (induction bs rule: toy_words.induct) (auto dest: enc_byte_no_space)

lemma filter_join_spaces:
  "filter (\<lambda>c. c \<noteq> CHR '' '') (join_spaces ws) = concat (map (filter (\<lambda>c. c \<noteq> CHR '' '')) ws)"
  by (induction ws rule: join_spaces.induct) simp_all

lemma filter_no_space: "CHR '' '' \<notin> set w \<Longrightarrow> filter (\<lambda>c. c \<noteq> CHR '' '') w = w"
  by (induction w) auto

lemma split_spaces_word: "CHR '' '' \<notin> set w \<Longrightarrow> split_spaces w = [w]"
  by (induction w) auto

lemma split_spaces_append:
  "CHR '' '' \<notin> set w \<Longrightarrow> split_spaces (w @ CHR '' '' # r) = w # split_spaces r"
  by (induction w) auto

lemma split_join_spaces:
  "ws \<noteq> [] \<Longrightarrow> \<forall>w \<in> set ws. CHR '' '' \<notin> set w \<Longrightarrow> split_spaces (join_spaces ws) = ws"
  by (induction ws rule: join_spaces.induct)
     (simp_all add: split_spaces_word split_spaces_append)

lemma toy_mnemo_ok: "mnemo_ok toy_mnemo"
  unfolding mnemo_ok_def
proof (intro allI impI)
  fix bs assume ok: "entropy_ok bs"
  then have small: "\<forall>b \<in> set bs. b < 256" and len: "length bs \<in> {16, 20, 24, 28, 32}"
    by (auto simp: entropy_ok_def)
  let ?ph = "join_spaces (toy_words bs)"
  have m4: "length bs mod 4 = 0" using len by auto
  have nosp: "\<forall>w \<in> set (toy_words bs). CHR '' '' \<notin> set w"
    using small by (auto dest: toy_words_no_space)
  have ne: "toy_words bs \<noteq> []"
    using len length_toy_words [of bs] by auto
  have enc: "to_mnemonic toy_mnemo bs = Inr ?ph"
    using ok by (simp add: toy_mnemo_def toy_to_mnemonic_def)
  have "filter (\<lambda>c. c \<noteq> CHR '' '') ?ph = concat (toy_words bs)"
    using nosp by (simp add: filter_join_spaces filter_no_space cong: map_cong)
  then have "toy_unpairs (filter (\<lambda>c. c \<noteq> CHR '' '') ?ph) = bs"
    using small m4 by (simp add: concat_toy_words toy_unpairs_concat)
  then have dec: "to_entropy toy_mnemo ?ph = Inr bs"
    using ok by (simp add: toy_mnemo_def toy_to_entropy_def toy_to_mnemonic_def)
  have cnt: "length (split_spaces ?ph) = length bs div 4 * 3"
    using ne nosp by (simp add: split_join_spaces length_toy_words)
  show "\<exists>phrase. to_mnemonic toy_mnemo bs = Inr phrase
           \<and> to_entropy toy_mnemo phrase = Inr bs
           \<and> length (split_spaces phrase) = length bs div 4 * 3"
    using enc dec cnt by blast
qed

lemma toy_seed_valid: "valid_seed toy_mnemo ''aa ab acad ae af agah ai aj akal am an aoap''"
  by code_simp

section \<open>Generation never overflows: C9\<close>

lemma map_err_total:
  "\<forall>x \<in> set xs. \<exists>y. f x = Inr y \<Longrightarrow> \<exists>ys. map_err f xs = Inr ys"
  by (induction xs) (fastforce split: sum.splits)+

lemma list_all2_map_eq:
  "list_all2 (\<lambda>x y. g y = x) xs ys \<Longrightarrow> map g ys = xs"
  by (induction rule: list_all2_induct) simp_all

text \<open>
  C9.  For every valid input of \<^verbatim>\<open>make_random_shares\<close> (the four checks pass and the seed
  phrase decodes), whatever the random source returns: the prime of the table is below
  \<open>2 ^ share_strength\<close>; every evaluation of \<^verbatim>\<open>_eval_at\<close> succeeds and the points are
  those of the indices 1 to \<open>n_shares\<close>; every value lies in \<open>[0, prime)\<close>, so its
  conversion to \<open>share_strength div 8\<close> bytes does not raise \<^verbatim>\<open>OverflowError\<close> and
  \<^verbatim>\<open>int_to_seed\<close> hands an entropy of an allowed length to the codec.  With a codec that
  encodes every such entropy, \<^verbatim>\<open>make_random_shares\<close> returns the \<open>n_shares\<close> shares.
\<close>

theorem generation_never_overflows:
  assumes "minimum \<le> n_shares"
    and "int (length (split_spaces seed)) \<in> set LENGTH_ALLOWED"
    and "share_strength \<in> set STRENGTH_ALLOWED"
    and "int (length (split_spaces seed)) div 3 * 32 \<le> share_strength"
    and "seed_to_int mnemo seed 256 = Inr secret"
  shows "\<exists>prime points.
      PRIMES share_strength = Some prime \<and> prime < 2 ^ nat share_strength
    \<and> make_points (make_poly rnd secret minimum) n_shares prime = Inr points
    \<and> map fst points = [1..n_shares]
    \<and> (\<forall>(i, v) \<in> set points. 0 \<le> v \<and> v < prime
          \<and> (\<exists>bs. int_to_bytes v (nat (share_strength div 8)) = Inr bs \<and> entropy_ok bs
                \<and> int_to_seed mnemo v share_strength = to_mnemonic mnemo bs))
    \<and> (mnemo_ok mnemo \<longrightarrow>
          (\<exists>shares. make_random_shares mnemo rnd seed minimum n_shares share_strength = Inr shares
             \<and> map fst shares = [1..n_shares]))"
proof -
  obtain p where p: "PRIMES share_strength = Some p" "0 < p" "p < 2 ^ nat share_strength"
    using PRIMES_allowed [OF assms(3)] by blast
  let ?poly = "make_poly rnd secret minimum"
  let ?len = "nat (share_strength div 8)"
  let ?points = "map (\<lambda>i. (i, poly_value ?poly i mod p)) [1..n_shares]"
  have pts: "make_points ?poly n_shares p = Inr ?points"
    using p(2) by (simp add: make_points_value)
  have idx: "map fst ?points = [1..n_shares]"
    by (simp add: comp_def)
  have rng: "0 \<le> v \<and> v < p
      \<and> (\<exists>bs. int_to_bytes v ?len = Inr bs \<and> entropy_ok bs
            \<and> int_to_seed mnemo v share_strength = to_mnemonic mnemo bs)"
    if "(i, v) \<in> set ?points" for i v
  proof -
    from that have v: "v = poly_value ?poly i mod p" by auto
    have b: "0 \<le> v" "v < p" using p(2) by (simp_all add: v)
    then have b2: "v < 2 ^ nat share_strength" using p(3) by simp
    show ?thesis
      using b int_to_bytes_fits [OF assms(3) b(1) b2] int_to_seed_fits [OF assms(3) b(1) b2]
        entropy_ok_be_bytes [OF assms(3)]
      by simp
  qed
  have shares: "\<exists>shares. make_random_shares mnemo rnd seed minimum n_shares share_strength = Inr shares
             \<and> map fst shares = [1..n_shares]" if ok: "mnemo_ok mnemo"
  proof -
    let ?f = "\<lambda>i. case to_mnemonic mnemo (be_bytes (nat (poly_value ?poly i mod p)) ?len) of
                 Inl e \<Rightarrow> Inl e | Inr phrase \<Rightarrow> Inr (i, phrase)"
    have u: "make_random_shares mnemo rnd seed minimum n_shares share_strength
        = map_err ?f [1..n_shares]"
      by (rule make_random_shares_unfold [OF assms p(1)])
    have "\<exists>y. ?f i = Inr y" for i
    proof -
      obtain ph where "to_mnemonic mnemo (be_bytes (nat (poly_value ?poly i mod p)) ?len) = Inr ph"
        using ok entropy_ok_be_bytes [OF assms(3)] unfolding mnemo_ok_def by blast
      then show ?thesis by simp
    qed
    then have "\<forall>i \<in> set [1..n_shares]. \<exists>y. ?f i = Inr y" by blast
    then obtain shares where s: "map_err ?f [1..n_shares] = Inr shares"
      using map_err_total [of "[1..n_shares]" ?f] by blast
    have "list_all2 (\<lambda>i y. ?f i = Inr y) [1..n_shares] shares"
      using s by (rule map_err_Inr_D)
    then have "list_all2 (\<lambda>i y. fst y = i) [1..n_shares] shares"
      by (rule list_all2_mono) (auto split: sum.splits)
    then have "map fst shares = [1..n_shares]" by (rule list_all2_map_eq)
    with u s show ?thesis by simp
  qed
  show ?thesis
    using p(1,3) pts idx rng shares by blast
qed

theorem generation_never_overflows_witness:
  "(2::int) \<le> 3
   \<and> int (length (split_spaces ''aa ab acad ae af agah ai aj akal am an aoap'')) \<in> set LENGTH_ALLOWED
   \<and> 128 \<in> set STRENGTH_ALLOWED
   \<and> seed_to_int toy_mnemo ''aa ab acad ae af agah ai aj akal am an aoap'' 256
        = Inr (int_from_bytes [0, 1, 2, 3, 4, 5, 6, 7, 8, 9, 10, 11, 12, 13, 14, 15])
   \<and> mnemo_ok toy_mnemo
   \<and> (\<exists>shares. make_random_shares toy_mnemo (\<lambda>i. 5)
          ''aa ab acad ae af agah ai aj akal am an aoap'' 2 3 128 = Inr shares
        \<and> map fst shares = [1..3])"
proof -
  let ?seed = "''aa ab acad ae af agah ai aj akal am an aoap''"
  have h1: "(2::int) \<le> 3" by simp
  have h2: "int (length (split_spaces ?seed)) \<in> set LENGTH_ALLOWED"
    by (simp add: LENGTH_ALLOWED_def)
  have h3: "128 \<in> set STRENGTH_ALLOWED" by (simp add: STRENGTH_ALLOWED_def)
  have h4: "int (length (split_spaces ?seed)) div 3 * 32 \<le> 128" by simp
  have h5: "seed_to_int toy_mnemo ?seed 256
        = Inr (int_from_bytes [0, 1, 2, 3, 4, 5, 6, 7, 8, 9, 10, 11, 12, 13, 14, 15])"
    by code_simp
  show ?thesis
    using generation_never_overflows [OF h1 h2 h3 h4 h5, of "\<lambda>i. 5"] h2 h3 h5 toy_mnemo_ok
    by auto
qed

section \<open>Which tuples of shares the self-verification tests: C3\<close>

text \<open>
  \<^verbatim>\<open>itertools.permutations(xs, r)\<close> has \<open>n (n - 1) \<dots> (n - r + 1)\<close> tuples, which is what
  \<^verbatim>\<open>len_permutations\<close> computes; over distinct elements they are the duplicate-free lists of
  \<open>r\<close> elements.
\<close>

lemma length_others: "i < length xs \<Longrightarrow> length (others xs i) = length xs - 1"
  by (simp add: others_def)

lemma set_others:
  assumes "distinct xs" and "i < length xs"
  shows "set (others xs i) = set xs - {xs ! i}" and "distinct (others xs i)"
proof -
  have e: "take i xs @ xs ! i # drop (Suc i) xs = xs"
    using assms(2) by (rule id_take_nth_drop [symmetric])
  have d: "distinct (take i xs @ xs ! i # drop (Suc i) xs)"
    using assms(1) by (simp only: e)
  have s: "set xs = set (take i xs) \<union> {xs ! i} \<union> set (drop (Suc i) xs)"
  proof -
    have "set xs = set (take i xs @ xs ! i # drop (Suc i) xs)" by (simp only: e)
    then show ?thesis by (simp only: set_append list.set) auto
  qed
  have d1: "xs ! i \<notin> set (take i xs)" "xs ! i \<notin> set (drop (Suc i) xs)"
    "distinct (take i xs)" "distinct (drop (Suc i) xs)"
    "set (take i xs) \<inter> set (drop (Suc i) xs) = {}"
    using d by (simp_all only: distinct_append distinct.simps list.set) auto
  show "set (others xs i) = set xs - {xs ! i}"
    unfolding others_def set_append using s d1 by blast
  show "distinct (others xs i)"
    unfolding others_def using d1 by (auto simp only: distinct_append)
qed

lemma set_others_subset: "set (others xs i) \<subseteq> set xs"
  by (auto simp: others_def dest: in_set_takeD in_set_dropD)





lemma permutations_sound:
  assumes "t \<in> set (permutations xs r)"
  shows "length t = r \<and> set t \<subseteq> set xs \<and> (distinct xs \<longrightarrow> distinct t)"
  using assms
proof (induction r arbitrary: xs t)
  case 0
  then show ?case by simp
next
  case (Suc r)
  then obtain i t' where i: "i < length xs" "t = xs ! i # t'"
      "t' \<in> set (permutations (others xs i) r)"
    by auto
  have ih: "length t' = r \<and> set t' \<subseteq> set (others xs i)
      \<and> (distinct (others xs i) \<longrightarrow> distinct t')"
    using Suc.IH [OF i(3)] .
  show ?case
  proof (intro conjI impI)
    show "length t = Suc r" using ih i by simp
    show "set t \<subseteq> set xs" using ih i set_others_subset [of xs i] by auto
    assume d: "distinct xs"
    show "distinct t"
      using ih i set_others [OF d i(1)] by auto
  qed
qed









section \<open>Interpolation: C2\<close>

subsection \<open>Polynomial functions and their roots\<close>

lemma polyfnI: "(\<And>z. f z = (\<Sum>i\<le>n. c i * z ^ i)) \<Longrightarrow> polyfn n f"
  unfolding polyfn_def by blast

lemma polyfn_const: "polyfn n (\<lambda>z. a)"
  unfolding polyfn_def
  by (rule exI [of _ "\<lambda>i. if i = 0 then a else 0"]) (simp add: if_distrib [of "\<lambda>x. x * _"] sum.delta cong: if_cong)

lemma polyfn_add:
  assumes "polyfn n f" and "polyfn n g"
  shows "polyfn n (\<lambda>z. f z + g z)"
proof -
  obtain c d where "\<forall>z. f z = (\<Sum>i\<le>n. c i * z ^ i)" "\<forall>z. g z = (\<Sum>i\<le>n. d i * z ^ i)"
    using assms unfolding polyfn_def by blast
  then have "\<And>z. f z + g z = (\<Sum>i\<le>n. (c i + d i) * z ^ i)"
    by (simp add: sum.distrib distrib_right)
  then show ?thesis by (rule polyfnI [where c = "\<lambda>i. c i + d i"])
qed

lemma polyfn_cmult:
  assumes "polyfn n f"
  shows "polyfn n (\<lambda>z. a * f z)"
proof -
  obtain c where "\<forall>z. f z = (\<Sum>i\<le>n. c i * z ^ i)"
    using assms unfolding polyfn_def by blast
  then have "\<And>z. a * f z = (\<Sum>i\<le>n. (a * c i) * z ^ i)"
    by (simp add: sum_distrib_left mult.assoc)
  then show ?thesis by (rule polyfnI [where c = "\<lambda>i. a * c i"])
qed

lemma polyfn_Suc:
  assumes "polyfn n f"
  shows "polyfn (Suc n) f"
proof -
  obtain c where c: "\<forall>z. f z = (\<Sum>i\<le>n. c i * z ^ i)"
    using assms unfolding polyfn_def by blast
  have "\<And>z. f z = (\<Sum>i\<le>Suc n. (if i \<le> n then c i else 0) * z ^ i)"
    using c by simp
  then show ?thesis by (rule polyfnI [where c = "\<lambda>i. if i \<le> n then c i else 0"])
qed

lemma polyfn_mono: "polyfn n f \<Longrightarrow> n \<le> m \<Longrightarrow> polyfn m f"
  by (induction m) (auto simp: le_Suc_eq intro: polyfn_Suc)

lemma polyfn_shift:
  assumes "polyfn n f"
  shows "polyfn (Suc n) (\<lambda>z. z * f z)"
proof -
  obtain c where c: "\<forall>z. f z = (\<Sum>i\<le>n. c i * z ^ i)"
    using assms unfolding polyfn_def by blast
  have "\<And>z. z * f z = (\<Sum>i\<le>Suc n. (case i of 0 \<Rightarrow> 0 | Suc j \<Rightarrow> c j) * z ^ i)"
    using c by (simp add: sum.atMost_Suc_shift sum_distrib_left mult_ac del: sum.atMost_Suc)
  then show ?thesis by (rule polyfnI [where c = "\<lambda>i. case i of 0 \<Rightarrow> 0 | Suc j \<Rightarrow> c j"])
qed

lemma polyfn_linear:
  assumes "polyfn n f"
  shows "polyfn (Suc n) (\<lambda>z. (z - a) * f z)"
proof -
  have "polyfn (Suc n) (\<lambda>z. z * f z + (- a) * f z)"
    by (intro polyfn_add polyfn_shift polyfn_Suc polyfn_cmult assms)
  then show ?thesis by (simp add: algebra_simps)
qed

lemma polyfn_linear_factors: "polyfn (length as) (\<lambda>z. prod_list (map (\<lambda>o'. z - o') as))"
proof (induction as)
  case Nil
  show ?case using polyfn_const [of 0 1] by simp
next
  case (Cons a as)
  show ?case using polyfn_linear [OF Cons, of a] by simp
qed

lemma polyfn_sum_list:
  assumes "\<And>i. i \<in> set is \<Longrightarrow> polyfn n (f i)"
  shows "polyfn n (\<lambda>z. \<Sum>i\<leftarrow>is. f i z)"
  using assms
proof (induction "is")
  case Nil
  show ?case using polyfn_const [of n 0] by simp
next
  case (Cons i "is")
  show ?case using Cons by (simp add: polyfn_add)
qed

lemma polyfn_roots:
  assumes "polyfn n f" and "distinct rs" and "length rs = Suc n" and "\<forall>r \<in> set rs. f r = 0"
  shows "f z = 0"
proof -
  obtain c where c: "\<forall>z. f z = (\<Sum>i\<le>n. c i * z ^ i)"
    using assms(1) unfolding polyfn_def by blast
  have "\<forall>k\<le>n. c k = 0"
  proof (rule ccontr)
    assume "\<not> (\<forall>k\<le>n. c k = 0)"
    then obtain k where k: "c k \<noteq> 0" "k \<le> n" by blast
    have fin: "finite {z. (\<Sum>i\<le>n. c i * z ^ i) = 0}"
      and crd: "card {z. (\<Sum>i\<le>n. c i * z ^ i) = 0} \<le> n"
      using polyfun_rootbound [of c k n] k by auto
    have "set rs \<subseteq> {z. (\<Sum>i\<le>n. c i * z ^ i) = 0}"
      using assms(4) c by auto
    then have "card (set rs) \<le> card {z. (\<Sum>i\<le>n. c i * z ^ i) = 0}"
      using fin by (rule card_mono [rotated])
    moreover have "card (set rs) = Suc n"
      using assms(2,3) by (simp add: distinct_card)
    ultimately show False using crd by simp
  qed
  then show ?thesis using c by simp
qed

subsection \<open>Interpolation over the reals\<close>

text \<open>
  The interpolation formula, for distinct nodes and a polynomial of degree below their
  number: the difference of the two sides is a polynomial of that degree which vanishes at
  every node.
\<close>

lemma nth_in_others:
  assumes "distinct xs" and "i < length xs" and "l < length xs" and "l \<noteq> i"
  shows "xs ! l \<in> set (others xs i)"
proof -
  have "xs ! l \<noteq> xs ! i" using assms by (simp add: nth_eq_iff_index_eq)
  then show ?thesis using set_others(1) [OF assms(1,2)] assms(3) by simp
qed

lemma others_not_self:
  assumes "distinct xs" and "i < length xs"
  shows "xs ! i \<notin> set (others xs i)"
  using set_others(1) [OF assms] by simp

lemma lagrange_real:
  fixes xs :: "real list" and P :: "real \<Rightarrow> real"
  assumes d: "distinct xs" and ne: "xs \<noteq> []" and P: "polyfn (length xs - 1) P"
  shows "(\<Sum>i\<leftarrow>[0..<length xs].
            P (xs ! i) * prod_list (map (\<lambda>o'. z - o') (others xs i))
              / prod_list (map (\<lambda>o'. xs ! i - o') (others xs i))) = P z"
proof -
  let ?k = "length xs"
  let ?N = "\<lambda>i z. prod_list (map (\<lambda>o'. z - o') (others xs i))"
  let ?t = "\<lambda>i z. P (xs ! i) * ?N i z / ?N i (xs ! i)"
  let ?Q = "\<lambda>z. (\<Sum>i\<leftarrow>[0..<?k]. ?t i z) + (- 1) * P z"
  have zero: "?N i (xs ! l) = 0" if "i < ?k" "l < ?k" "l \<noteq> i" for i l
  proof -
    have "xs ! l \<in> set (others xs i)" using d that by (intro nth_in_others)
    then have "0 \<in> set (map (\<lambda>o'. xs ! l - o') (others xs i))" by force
    then show ?thesis by (simp only: prod_list_zero_iff)
  qed
  have nz: "?N i (xs ! i) \<noteq> 0" if "i < ?k" for i
  proof -
    have "0 \<notin> set (map (\<lambda>o'. xs ! i - o') (others xs i))"
      using others_not_self [OF d that] by auto
    then show ?thesis by (simp add: prod_list_zero_iff)
  qed
  have tm: "polyfn (?k - 1) (?t i)" if "i \<in> set [0..<?k]" for i
  proof -
    from that have i: "i < ?k" by simp
    have "polyfn (length (others xs i)) (?N i)" by (rule polyfn_linear_factors)
    then have "polyfn (?k - 1) (?N i)" using i by (simp add: length_others)
    then have "polyfn (?k - 1) (\<lambda>z. (P (xs ! i) / ?N i (xs ! i)) * ?N i z)"
      by (rule polyfn_cmult)
    then show ?thesis by simp
  qed
  have Q: "polyfn (?k - 1) ?Q"
    by (intro polyfn_add polyfn_sum_list polyfn_cmult tm P)
  have root: "?Q (xs ! l) = 0" if l: "l < ?k" for l
  proof -
    have "(\<Sum>i\<leftarrow>[0..<?k]. ?t i (xs ! l)) = (\<Sum>i\<in>{0..<?k}. ?t i (xs ! l))"
      by (simp add: interv_sum_list_conv_sum_set_nat)
    also have "\<dots> = (\<Sum>i\<in>{0..<?k}. if i = l then P (xs ! l) else 0)"
      by (rule sum.cong) (auto simp: zero nz l)
    also have "\<dots> = P (xs ! l)" using l by simp
    finally show ?thesis by simp
  qed
  have "?Q z = 0"
  proof (rule polyfn_roots [OF Q d])
    show "length xs = Suc (?k - 1)" using ne by (cases xs) simp_all
    show "\<forall>r\<in>set xs. ?Q r = 0" using root by (auto simp: in_set_conv_nth)
  qed
  then show ?thesis by simp
qed

subsection \<open>The integer identity behind the common denominator\<close>

text \<open>
  Multiplied by the product of all the denominators, the formula is an identity between
  integers: the sum over \<open>i\<close> of \<open>P (x\<^sub>i)\<close> times the \<open>i\<close>-th numerator times the product of the
  other denominators is \<open>P z\<close> times the product of all the denominators.
\<close>

lemma poly_value_sum: "poly_value cs x = (\<Sum>j<length cs. cs ! j * x ^ j)"
proof (induction cs)
  case Nil
  show ?case by simp
next
  case (Cons c cs)
  show ?case
    by (simp add: Cons.IH sum.lessThan_Suc_shift sum_distrib_left mult_ac del: sum.lessThan_Suc)
qed

lemma polyfn_coefficients:
  assumes "length cs \<le> Suc n"
  shows "polyfn n (\<lambda>z. \<Sum>j<length cs. real_of_int (cs ! j) * z ^ j)"
proof (rule polyfnI [where c = "\<lambda>i. if i < length cs then real_of_int (cs ! i) else 0"])
  fix z :: real
  have "(\<Sum>i\<le>n. (if i < length cs then real_of_int (cs ! i) else 0) * z ^ i)
      = (\<Sum>j<length cs. real_of_int (cs ! j) * z ^ j)"
    using assms by (intro sum.mono_neutral_cong_right) auto
  then show "(\<Sum>j<length cs. real_of_int (cs ! j) * z ^ j)
      = (\<Sum>i\<le>n. (if i < length cs then real_of_int (cs ! i) else 0) * z ^ i)"
    by simp
qed

lemma of_int_prod_list: "of_int (prod_list l) = prod_list (map of_int l)"
  by (induction l) simp_all

lemma of_int_sum_list_map:
  "of_int (\<Sum>i\<leftarrow>l. f i) = (\<Sum>i\<leftarrow>l. of_int (f i))"
  by (induction l) simp_all

lemma others_map: "others (map f xs) i = map f (others xs i)"
  by (simp add: others_def take_map drop_map)

lemma prod_list_others:
  fixes l :: "'a::comm_monoid_mult list"
  assumes "i < length l"
  shows "prod_list l = l ! i * prod_list (others l i)"
proof -
  have e: "take i l @ l ! i # drop (Suc i) l = l"
    using assms by (rule id_take_nth_drop [symmetric])
  have "prod_list (take i l @ l ! i # drop (Suc i) l) = l ! i * prod_list (others l i)"
    by (simp add: others_def mult_ac)
  then show ?thesis by (simp only: e)
qed

lemma lagrange_nums_nth:
  "i < length xs \<Longrightarrow> lagrange_nums z xs ! i = prod_list (map (\<lambda>o'. z - o') (others xs i))"
  by (simp add: lagrange_nums_def PI_prod_list)

lemma lagrange_dens_nth:
  "i < length xs \<Longrightarrow> lagrange_dens xs ! i = prod_list (map (\<lambda>o'. xs ! i - o') (others xs i))"
  by (simp add: lagrange_dens_def PI_prod_list)

lemma length_lagrange_dens: "length (lagrange_dens xs) = length xs"
  by (simp add: lagrange_dens_def)

lemma lagrange_dens_nonzero:
  assumes "distinct xs" and "i < length xs"
  shows "lagrange_dens xs ! i \<noteq> 0"
proof -
  have "0 \<notin> set (map (\<lambda>o'. xs ! i - o') (others xs i))"
    using others_not_self [OF assms] by auto
  then show ?thesis using assms(2) by (simp add: lagrange_dens_nth prod_list_zero_iff)
qed

lemma lagrange_int:
  fixes xs cs :: "int list"
  assumes d: "distinct xs" and len: "length cs \<le> length xs"
  shows "(\<Sum>i\<leftarrow>[0..<length xs].
            poly_value cs (xs ! i) * lagrange_nums z xs ! i
              * prod_list (others (lagrange_dens xs) i))
         = poly_value cs z * prod_list (lagrange_dens xs)"
proof (cases "xs = []")
  case True
  then show ?thesis using len by simp
next
  case False
  let ?k = "length xs"
  let ?rx = "map real_of_int xs"
  let ?P = "\<lambda>z. \<Sum>j<length cs. real_of_int (cs ! j) * z ^ j"
  let ?ds = "lagrange_dens xs"
  let ?D = "prod_list ?ds"
  have P: "?P (of_int x) = of_int (poly_value cs x)" for x
    by (simp add: poly_value_sum)
  have drx: "distinct ?rx" using d by (simp add: distinct_map inj_on_def)
  have pf: "polyfn (length ?rx - 1) ?P"
    using len False by (intro polyfn_coefficients) (cases xs, simp_all)
  have N: "prod_list (map (\<lambda>o'. of_int w - o') (others ?rx i))
      = real_of_int (prod_list (map (\<lambda>o'. w - o') (others xs i)))" for w i
    by (simp add: others_map of_int_prod_list comp_def)
  have real_eq: "(\<Sum>i\<leftarrow>[0..<?k].
        real_of_int (poly_value cs (xs ! i)) * real_of_int (lagrange_nums z xs ! i)
          / real_of_int (?ds ! i)) = real_of_int (poly_value cs z)"
  proof -
    have "(\<Sum>i\<leftarrow>[0..<length ?rx].
            ?P (?rx ! i) * prod_list (map (\<lambda>o'. of_int z - o') (others ?rx i))
              / prod_list (map (\<lambda>o'. ?rx ! i - o') (others ?rx i))) = ?P (of_int z)"
      using drx False pf by (intro lagrange_real) simp_all
    moreover have "map (\<lambda>i. ?P (?rx ! i) * prod_list (map (\<lambda>o'. of_int z - o') (others ?rx i))
              / prod_list (map (\<lambda>o'. ?rx ! i - o') (others ?rx i))) [0..<length ?rx]
        = map (\<lambda>i. real_of_int (poly_value cs (xs ! i)) * real_of_int (lagrange_nums z xs ! i)
          / real_of_int (?ds ! i)) [0..<?k]"
      by (rule map_cong) (simp_all add: P N lagrange_nums_nth lagrange_dens_nth)
    ultimately show ?thesis by (simp only: P)
  qed
  have each: "real_of_int (poly_value cs (xs ! i)) * real_of_int (lagrange_nums z xs ! i)
          / real_of_int (?ds ! i) * real_of_int ?D
        = real_of_int (poly_value cs (xs ! i) * lagrange_nums z xs ! i
              * prod_list (others ?ds i))" if "i \<in> set [0..<?k]" for i
  proof -
    from that have i: "i < ?k" by simp
    have nz: "real_of_int (?ds ! i) \<noteq> 0" using lagrange_dens_nonzero [OF d i] by simp
    have "?D = ?ds ! i * prod_list (others ?ds i)"
      using i by (intro prod_list_others) (simp add: length_lagrange_dens)
    then have "real_of_int ?D = real_of_int (?ds ! i) * real_of_int (prod_list (others ?ds i))"
      by (metis of_int_mult)
    then show ?thesis using nz by simp
  qed
  have "real_of_int (\<Sum>i\<leftarrow>[0..<?k]. poly_value cs (xs ! i) * lagrange_nums z xs ! i
              * prod_list (others ?ds i))
      = (\<Sum>i\<leftarrow>[0..<?k]. real_of_int (poly_value cs (xs ! i)) * real_of_int (lagrange_nums z xs ! i)
          / real_of_int (?ds ! i) * real_of_int ?D)"
    unfolding of_int_sum_list_map
    by (rule arg_cong [where f = sum_list], rule map_cong) (simp_all only: each)
  also have "\<dots> = (\<Sum>i\<leftarrow>[0..<?k]. real_of_int (poly_value cs (xs ! i)) * real_of_int (lagrange_nums z xs ! i)
          / real_of_int (?ds ! i)) * real_of_int ?D"
    by (simp only: sum_list_mult_const)
  also have "\<dots> = real_of_int (poly_value cs z * ?D)"
    by (simp only: real_eq of_int_mult)
  finally show ?thesis by (simp only: of_int_eq_iff)
qed

subsection \<open>The interpolator modulo \<open>p\<close>\<close>

text \<open>
  What \<^verbatim>\<open>_lagrange_interpolate\<close> returns when every denominator is invertible modulo \<open>p\<close>:
  the value of the polynomial at \<open>x\<close>, reduced into \<open>[0, p)\<close>.
\<close>

lemma mod_cancel_coprime:
  fixes d p a b :: int
  assumes "coprime d p" and "(d * a) mod p = (d * b) mod p"
  shows "a mod p = b mod p"
proof -
  have "p dvd d * a - d * b" using assms(2) by (simp add: mod_eq_dvd_iff)
  then have "p dvd d * (a - b)" by (simp add: right_diff_distrib)
  moreover have "coprime p d" using assms(1) by (simp add: coprime_commute)
  ultimately have "p dvd a - b" by (simp add: coprime_dvd_mult_right_iff)
  then show ?thesis by (simp add: mod_eq_dvd_iff)
qed

lemma sum_list_mod_cong:
  fixes f g :: "'a \<Rightarrow> int"
  assumes "\<And>i. i \<in> set l \<Longrightarrow> f i mod p = g i mod p"
  shows "(\<Sum>i\<leftarrow>l. f i) mod p = (\<Sum>i\<leftarrow>l. g i) mod p"
  using assms
proof (induction l)
  case Nil
  show ?case by simp
next
  case (Cons a l)
  have "(f a + (\<Sum>i\<leftarrow>l. f i)) mod p = (g a + (\<Sum>i\<leftarrow>l. g i)) mod p"
    by (rule mod_add_cong) (simp_all add: Cons)
  then show ?case by simp
qed

lemma lagrange_interpolate_mod:
  assumes p: "0 < p" and d: "distinct xs" and len: "length cs \<le> length xs"
    and ly: "length ys = length xs"
    and cop: "\<And>i. i < length xs \<Longrightarrow> coprime (lagrange_dens xs ! i) p"
    and on: "\<And>i. i < length xs \<Longrightarrow> ys ! i mod p = poly_value cs (xs ! i) mod p"
  shows "lagrange_interpolate x xs ys p = Inr (poly_value cs x mod p)"
proof -
  let ?k = "length xs"
  let ?nums = "lagrange_nums x xs"
  let ?dens = "lagrange_dens xs"
  let ?D = "PI ?dens"
  let ?t = "\<lambda>i. divmod_p (?nums ! i * ?D * ys ! i mod p) (?dens ! i) p"
  let ?num = "sum_list (map ?t [0..<?k])"
  have D: "?D = prod_list ?dens" by (rule PI_prod_list)
  have terms: "map_err (\<lambda>i. if length ys \<le> i then Inl IndexError
                        else if p = 0 then Inl ZeroDivisionError
                        else Inr (?t i)) [0..<?k] = Inr (map ?t [0..<?k])"
    using p ly by (intro map_err_all_Inr) simp
  have run: "lagrange_interpolate x xs ys p = Inr ((divmod_p ?num ?D p + p) mod p)"
    using p d unfolding lagrange_interpolate_def Let_def terms
    by (simp add: distinct_length_remdups)
  have t: "?t i mod p
      = (poly_value cs (xs ! i) * ?nums ! i * prod_list (others ?dens i)) mod p"
    if "i \<in> set [0..<?k]" for i
  proof -
    from that have i: "i < ?k" by simp
    let ?Dx = "prod_list (others ?dens i)"
    have De: "?D = ?dens ! i * ?Dx"
      unfolding D using i by (intro prod_list_others) (simp add: length_lagrange_dens)
    have "?dens ! i * ?t i mod p = (?nums ! i * ?D * ys ! i mod p) mod p"
      using p cop [OF i] by (rule divmod_p_cong)
    also have "\<dots> = (?dens ! i * (?nums ! i * ?Dx)) * ys ! i mod p"
      by (simp add: De mult_ac)
    also have "\<dots> = (?dens ! i * (?nums ! i * ?Dx)) * poly_value cs (xs ! i) mod p"
      by (rule mod_mult_cong) (simp_all add: on [OF i])
    also have "\<dots> = ?dens ! i * (poly_value cs (xs ! i) * ?nums ! i * ?Dx) mod p"
      by (simp add: mult_ac)
    finally show ?thesis using cop [OF i] by (rule mod_cancel_coprime [rotated])
  qed
  have num: "?num mod p = (?D * poly_value cs x) mod p"
  proof -
    have "?num mod p = (\<Sum>i\<leftarrow>[0..<?k]. poly_value cs (xs ! i) * ?nums ! i
              * prod_list (others ?dens i)) mod p"
      by (rule sum_list_mod_cong) (rule t)
    also have "\<dots> = (poly_value cs x * prod_list ?dens) mod p"
      by (simp only: lagrange_int [OF d len])
    finally show ?thesis by (simp add: D mult.commute)
  qed
  have copD: "coprime ?D p"
    unfolding D
  proof (rule prod_list_coprime_left)
    fix v assume "v \<in> set ?dens"
    then obtain i where "i < ?k" "v = ?dens ! i"
      by (auto simp: in_set_conv_nth length_lagrange_dens)
    then show "coprime v p" using cop by simp
  qed
  have "?D * divmod_p ?num ?D p mod p = ?num mod p"
    using p copD by (rule divmod_p_cong)
  then have "?D * divmod_p ?num ?D p mod p = (?D * poly_value cs x) mod p"
    by (simp only: num)
  then have "divmod_p ?num ?D p mod p = poly_value cs x mod p"
    using copD by (rule mod_cancel_coprime [rotated])
  then show ?thesis unfolding run by simp
qed

subsection \<open>Prime moduli\<close>

lemma is_prime_coprime:
  assumes "is_prime p" and "\<not> p dvd a"
  shows "coprime a p"
proof -
  have p: "1 < p" and nd: "\<And>d. 2 \<le> d \<Longrightarrow> d < p \<Longrightarrow> \<not> d dvd p"
    using assms(1) by (auto simp: is_prime_def)
  let ?g = "gcd a p"
  have g0: "0 \<le> ?g" by simp
  have gp: "?g dvd p" and ga: "?g dvd a" by simp_all
  have "?g \<noteq> 0" using p by simp
  have "?g \<le> p" using gp p by (intro zdvd_imp_le) simp_all
  moreover have "?g \<noteq> p"
  proof
    assume "?g = p"
    then have "p dvd a" by (metis gcd_dvd1)
    then show False using assms(2) by simp
  qed
  ultimately have "?g < p" by simp
  then have "\<not> 2 \<le> ?g" using nd gp by blast
  then have "?g = 1" using g0 \<open>?g \<noteq> 0\<close> by linarith
  then show ?thesis by (simp add: coprime_iff_gcd_eq_1)
qed

lemma lagrange_dens_coprime:
  assumes "is_prime p" and dm: "distinct (map (\<lambda>x. x mod p) xs)" and i: "i < length xs"
  shows "coprime (lagrange_dens xs ! i) p"
proof -
  have d: "distinct xs" and inj: "inj_on (\<lambda>x. x mod p) (set xs)"
    using dm by (simp_all add: distinct_map)
  have "coprime (prod_list (map (\<lambda>o'. xs ! i - o') (others xs i))) p"
  proof (rule prod_list_coprime_left)
    fix v assume "v \<in> set (map (\<lambda>o'. xs ! i - o') (others xs i))"
    then obtain o' where o: "o' \<in> set (others xs i)" "v = xs ! i - o'" by auto
    then have "o' \<in> set xs" "o' \<noteq> xs ! i"
      using set_others(1) [OF d i] by auto
    then have "xs ! i mod p \<noteq> o' mod p"
      using inj i by (auto simp: inj_on_def)
    then have "\<not> p dvd v" by (simp add: o mod_eq_dvd_iff)
    then show "coprime v p" using assms(1) by (intro is_prime_coprime)
  qed
  then show ?thesis using i by (simp add: lagrange_dens_nth)
qed

text \<open>
  C2, as the specification states it, fails when two x-values are different integers but
  congruent modulo \<open>p\<close>: they are the same point of the field, the assertion of the
  interpolator does not see it, and both denominators are multiples of \<open>p\<close>.  With
  \<open>p = 2089\<close>, the polynomial \<open>42 + x\<close> and the points \<open>(1, 43)\<close> and \<open>(2090, 43)\<close> the
  interpolator returns 0, not 42.
\<close>

theorem lagrange_interpolate_congruent_points_counterexample:
  "is_prime 2089 \<and> distinct [1, 2090 :: int] \<and> (1::int) \<noteq> 0 \<and> (2090::int) \<noteq> 0
   \<and> (0::int) \<le> 42 \<and> (42::int) < 2089 \<and> (0::int) \<le> 1 \<and> (1::int) < 2089
   \<and> poly_value [42, 1] 1 mod 2089 = 43 \<and> poly_value [42, 1] 2090 mod 2089 = 43
   \<and> lagrange_interpolate 0 [1, 2090] [43, 43] 2089 = Inr 0
   \<and> hd [42, 1 :: int] \<noteq> 0"
  by code_simp

text \<open>
  C2 amended.  For every prime \<open>p\<close>, every polynomial with at most \<open>k\<close> coefficients in
  \<open>[0, p)\<close> (degree below \<open>k\<close>) and every \<open>k\<close> points \<open>(x\<^sub>i, y\<^sub>i)\<close> whose \<open>x\<^sub>i\<close> are pairwise
  distinct modulo \<open>p\<close> and whose \<open>y\<^sub>i\<close> are congruent modulo \<open>p\<close> to the values of the
  polynomial, \<^verbatim>\<open>_lagrange_interpolate(0, x_s, y_s, p)\<close> returns the constant term.  (The
  x-values need not be nonzero.)  The witness is the instance of the specification:
  secret 42, the polynomial \<open>42 + 166 x + 94 x\<^sup>2\<close> over 2089 and its points at 1, 2, 3.
\<close>

theorem lagrange_interpolate_constant_term:
  assumes "is_prime p"
    and "cs \<noteq> []" and "length cs \<le> length x_s" and "\<forall>c \<in> set cs. 0 \<le> c \<and> c < p"
    and "length y_s = length x_s"
    and "distinct (map (\<lambda>x. x mod p) x_s)"
    and "\<forall>i<length x_s. y_s ! i mod p = poly_value cs (x_s ! i) mod p"
  shows "lagrange_interpolate 0 x_s y_s p = Inr (hd cs)"
proof -
  have p: "0 < p" using assms(1) by (simp add: is_prime_def)
  have d: "distinct x_s" using assms(6) by (simp add: distinct_map)
  have "lagrange_interpolate 0 x_s y_s p = Inr (poly_value cs 0 mod p)"
    using p d assms(3,5) lagrange_dens_coprime [OF assms(1,6)] assms(7)
    by (intro lagrange_interpolate_mod) simp_all
  moreover have "poly_value cs 0 = hd cs" using assms(2) by (cases cs) simp_all
  moreover have "0 \<le> hd cs \<and> hd cs < p" using assms(2,4) by (cases cs) simp_all
  ultimately show ?thesis by simp
qed

theorem lagrange_interpolate_constant_term_witness:
  "is_prime 2089 \<and> distinct (map (\<lambda>x. x mod 2089) [1, 2, 3 :: int])
   \<and> poly_value [42, 166, 94] 1 mod 2089 = 302 \<and> poly_value [42, 166, 94] 2 mod 2089 = 750
   \<and> poly_value [42, 166, 94] 3 mod 2089 = 1386
   \<and> lagrange_interpolate 0 [1, 2, 3] [302, 750, 1386] 2089 = Inr 42"
proof -
  have h1: "is_prime 2089" by code_simp
  have h4: "\<forall>c \<in> set [42, 166, 94 :: int]. 0 \<le> c \<and> c < 2089" by simp
  have h6: "distinct (map (\<lambda>x. x mod 2089) [1, 2, 3 :: int])" by simp
  have h7: "\<forall>i<length [1, 2, 3 :: int]. [302, 750, 1386] ! i mod 2089
      = poly_value [42, 166, 94] ([1, 2, 3] ! i) mod 2089"
    by (simp add: less_Suc_eq)
  have "lagrange_interpolate 0 [1, 2, 3] [302, 750, 1386] 2089 = Inr (hd [42, 166, 94])"
    using h1 _ _ h4 _ h6 h7 by (rule lagrange_interpolate_constant_term) simp_all
  then show ?thesis using h1 h6 by simp
qed

end
